theory Spec2Isabelle
  imports Main "HOL-Library.Product_Lexorder"
begin

section \<open>Data model of minesweeper.py\<close>

text \<open>
  A cell is a pair of Python integers. A Python \<open>set\<close> of cells is a HOL set; where the
  source iterates over a copy of a set (\<open>for cell in self.cells.copy()\<close>) the model
  enumerates it with \<open>set_items\<close>. Python leaves the iteration order of a set open; the
  model takes the lexicographic one.
\<close>

type_synonym cell = "int \<times> int"

definition set_items :: "cell set \<Rightarrow> cell list" where
  "set_items A = sorted_list_of_set A"

text \<open>The only exception the knowledge base code can raise: \<open>sentence.remove(cell)\<close> in
  \<open>mark_sels_as_mine_or_safe\<close> calls a method that class \<open>Sentence\<close> does not have.\<close>

datatype error = AttributeError

subsection \<open>class Sentence\<close>

record sentence =
  cells :: "cell set"
  count :: int
  known_mine_set :: "cell set"
  known_safe_set :: "cell set"

text \<open>\<open>Sentence.__init__\<close>\<close>

definition Sentence :: "cell set \<Rightarrow> int \<Rightarrow> sentence" where
  "Sentence cs n = \<lparr>cells = cs, count = n, known_mine_set = {}, known_safe_set = {}\<rparr>"

text \<open>\<open>Sentence.__eq__\<close>: only the cells and the count are compared.\<close>

definition sentence_eq :: "sentence \<Rightarrow> sentence \<Rightarrow> bool" where
  "sentence_eq s t \<longleftrightarrow> cells s = cells t \<and> count s = count t"

text \<open>Class \<open>Sentence\<close> defines neither \<open>__bool__\<close> nor \<open>__len__\<close>, so every instance is
  true in a condition (\<open>if new_sentence:\<close>).\<close>

definition sentence_truthy :: "sentence \<Rightarrow> bool" where
  "sentence_truthy s = True"

text \<open>\<open>Sentence.mark_mine\<close> and \<open>Sentence.mark_safe\<close>\<close>

definition Sentence_mark_mine :: "cell \<Rightarrow> sentence \<Rightarrow> sentence" where
  "Sentence_mark_mine c s =
     (if c \<in> cells s
      then s\<lparr>known_mine_set := insert c (known_mine_set s),
             cells := cells s - {c},
             count := count s - 1\<rparr>
      else s)"

definition Sentence_mark_safe :: "cell \<Rightarrow> sentence \<Rightarrow> sentence" where
  "Sentence_mark_safe c s =
     (if c \<in> cells s
      then s\<lparr>known_safe_set := insert c (known_safe_set s),
             cells := cells s - {c}\<rparr>
      else s)"

text \<open>\<open>Sentence.known_mines\<close> and \<open>Sentence.known_safes\<close> return a set and leave the
  sentence in a new state; the model returns both.\<close>

definition known_mines :: "sentence \<Rightarrow> cell set \<times> sentence" where
  "known_mines s =
     (let s' = (if int (card (cells s)) = count s
                then fold Sentence_mark_mine (set_items (cells s)) s
                else s)
      in (known_mine_set s', s'))"

definition known_safes :: "sentence \<Rightarrow> cell set \<times> sentence" where
  "known_safes s =
     (let s' = (if count s = 0
                then fold Sentence_mark_safe (set_items (cells s)) s
                else s)
      in (known_safe_set s', s'))"

subsection \<open>class MinesweeperAI\<close>

record ai =
  height :: int
  width :: int
  moves_made :: "cell set"
  mines :: "cell set"
  safes :: "cell set"
  knowledge :: "sentence list"

text \<open>\<open>MinesweeperAI.__init__\<close>\<close>

definition MinesweeperAI :: "int \<Rightarrow> int \<Rightarrow> ai" where
  "MinesweeperAI h w =
     \<lparr>height = h, width = w, moves_made = {}, mines = {}, safes = {}, knowledge = []\<rparr>"

text \<open>\<open>MinesweeperAI.mark_mine\<close> and \<open>MinesweeperAI.mark_safe\<close>: every sentence object of
  the list is updated in place.\<close>

definition mark_mine :: "cell \<Rightarrow> ai \<Rightarrow> ai" where
  "mark_mine c a =
     a\<lparr>mines := insert c (mines a), knowledge := map (Sentence_mark_mine c) (knowledge a)\<rparr>"

definition mark_safe :: "cell \<Rightarrow> ai \<Rightarrow> ai" where
  "mark_safe c a =
     a\<lparr>safes := insert c (safes a), knowledge := map (Sentence_mark_safe c) (knowledge a)\<rparr>"

text \<open>The cells visited by the two nested \<open>range\<close> loops around a cell, in loop order
  (the cell itself included; the loop bodies skip it).\<close>

definition neighbours :: "cell \<Rightarrow> cell list" where
  "neighbours c =
     concat (map (\<lambda>i. map (\<lambda>j. (i, j)) [snd c - 1..snd c + 1]) [fst c - 1..fst c + 1])"

definition in_bounds :: "int \<Rightarrow> int \<Rightarrow> cell \<Rightarrow> bool" where
  "in_bounds h w p \<longleftrightarrow> 0 \<le> fst p \<and> fst p < h \<and> 0 \<le> snd p \<and> snd p < w"

text \<open>One iteration of the loop of \<open>add_knowledge\<close> that collects \<open>new_cells\<close> and
  adjusts \<open>count\<close>.\<close>

definition neighbour_step :: "ai \<Rightarrow> cell \<Rightarrow> cell \<Rightarrow> cell set \<times> int \<Rightarrow> cell set \<times> int" where
  "neighbour_step a cell p acc =
     (case acc of (new_cells, n) \<Rightarrow>
        if p = cell \<or> p \<in> safes a then (new_cells, n)
        else if p \<in> mines a then (new_cells, n - 1)
        else if in_bounds (height a) (width a) p then (insert p new_cells, n)
        else (new_cells, n))"

text \<open>\<open>sentence in self.knowledge\<close> and \<open>self.knowledge.remove(sentence)\<close> compare with
  \<open>__eq__\<close>; \<open>remove\<close> deletes the first equal element.\<close>

definition sentence_in :: "sentence \<Rightarrow> sentence list \<Rightarrow> bool" where
  "sentence_in s ks = list_ex (\<lambda>k. sentence_eq k s) ks"

fun remove_first :: "sentence \<Rightarrow> sentence list \<Rightarrow> sentence list" where
  "remove_first v [] = []"
| "remove_first v (k # ks) = (if sentence_eq k v then ks else k # remove_first v ks)"

text \<open>The loop of \<open>add_knowledge\<close> that removes the revealed cell from a sentence.\<close>

definition drop_cell :: "cell \<Rightarrow> sentence \<Rightarrow> sentence" where
  "drop_cell cell s =
     fold (\<lambda>c s'. if cell = c then s'\<lparr>cells := cells s' - {c}\<rparr> else s') (set_items (cells s)) s"

subsection \<open>mark_sels_as_mine_or_safe\<close>

text \<open>
  The first loop runs over a copy of the list, so over the positions \<open>0 ..< len\<close>; the
  sentence objects are shared, so each visit reads the sentence as the earlier visits
  left it. \<open>sentences_to_remove\<close> holds references: the model keeps the positions.
\<close>

definition sweep_step :: "nat \<Rightarrow> ai \<times> nat list \<Rightarrow> ai \<times> nat list" where
  "sweep_step i st =
     (case st of (a, sentences_to_remove) \<Rightarrow>
        let s = knowledge a ! i in
        if card (cells s) = 0 then (a, sentences_to_remove @ [i])
        else
          let (a1, rem1) =
                (if int (card (cells s)) = count s \<and> count s \<noteq> 0
                 then (fold mark_mine (set_items (cells s)) a, sentences_to_remove @ [i])
                 else (a, sentences_to_remove));
              s1 = knowledge a1 ! i
          in if count s1 = 0
             then (fold mark_safe (set_items (cells s1)) a1, rem1 @ [i])
             else (a1, rem1))"

definition sweep :: "ai \<Rightarrow> ai \<times> nat list" where
  "sweep a = fold sweep_step [0..<length (knowledge a)] (a, [])"

text \<open>The second loop: \<open>objs\<close> are the sentence objects as the first loop left them.\<close>

definition discard :: "sentence list \<Rightarrow> nat \<Rightarrow> sentence list \<Rightarrow> sentence list" where
  "discard objs i ks = (if sentence_in (objs ! i) ks then remove_first (objs ! i) ks else ks)"

definition before_purge :: "ai \<Rightarrow> ai" where
  "before_purge a =
     (case sweep a of (a1, sentences_to_remove) \<Rightarrow>
        a1\<lparr>knowledge := fold (discard (knowledge a1)) sentences_to_remove (knowledge a1)\<rparr>)"

text \<open>The third loop reaches \<open>sentence.remove(cell)\<close>, which raises, as soon as a cell of a
  sentence is a known mine.\<close>

definition purge_loop :: "ai \<Rightarrow> error + ai" where
  "purge_loop a =
     (if list_ex (\<lambda>s. list_ex (\<lambda>c. c \<in> mines a) (set_items (cells s))) (knowledge a)
      then Inl AttributeError
      else Inr a)"

definition mark_sels_as_mine_or_safe :: "ai \<Rightarrow> error + ai" where
  "mark_sels_as_mine_or_safe a = purge_loop (before_purge a)"

subsection \<open>add_knowledge\<close>

definition resolve_pair :: "sentence \<Rightarrow> sentence \<Rightarrow> sentence list" where
  "resolve_pair s t =
     (if sentence_eq s t \<or> card (cells s) = card (cells t) then []
      else if cells s \<subseteq> cells t then [Sentence (cells t - cells s) (count t - count s)]
      else if cells t \<subseteq> cells s then [Sentence (cells s - cells t) (count s - count t)]
      else [])"

definition resolution :: "sentence list \<Rightarrow> sentence list" where
  "resolution ks = concat (map (\<lambda>s. concat (map (\<lambda>t. resolve_pair s t) ks)) ks)"

text \<open>The state of \<open>add_knowledge\<close> when it calls \<open>mark_sels_as_mine_or_safe\<close> for the
  first time, with the sentence built from the observation.\<close>

definition observe :: "cell \<Rightarrow> int \<Rightarrow> ai \<Rightarrow> sentence \<times> ai" where
  "observe cell n a0 =
     (let a1 = mark_safe cell (a0\<lparr>moves_made := insert cell (moves_made a0)\<rparr>);
          (new_cells, n') = fold (neighbour_step a1 cell) (neighbours cell) ({}, n);
          new_sentence = Sentence new_cells n';
          a2 = (if \<not> sentence_in new_sentence (knowledge a1)
                then a1\<lparr>knowledge := knowledge a1 @ [new_sentence]\<rparr>
                else a1)
      in (new_sentence, a2\<lparr>knowledge := map (drop_cell cell) (knowledge a2)\<rparr>))"

text \<open>The resolution step: the derived sentences are appended when \<open>new_sentence\<close> is
  true in a condition.\<close>

definition resolve :: "sentence \<Rightarrow> ai \<Rightarrow> ai" where
  "resolve new_sentence a =
     (let new_sentences = resolution (knowledge a)
      in if sentence_truthy new_sentence
         then a\<lparr>knowledge := knowledge a @ new_sentences\<rparr>
         else a)"

definition add_knowledge :: "cell \<Rightarrow> int \<Rightarrow> ai \<Rightarrow> error + ai" where
  "add_knowledge cell n a0 =
     (case observe cell n a0 of (new_sentence, a3) \<Rightarrow>
        (case mark_sels_as_mine_or_safe a3 of
           Inl e \<Rightarrow> Inl e
         | Inr a4 \<Rightarrow> mark_sels_as_mine_or_safe (resolve new_sentence a4)))"

subsection \<open>make_random_move\<close>

text \<open>\<open>random.choice\<close> is a parameter: any function that returns an element of a
  non-empty list.\<close>

definition random_moves :: "ai \<Rightarrow> cell list" where
  "random_moves a =
     concat (map (\<lambda>i. concat (map (\<lambda>j. if (i, j) \<notin> moves_made a \<and> (i, j) \<notin> mines a
                                         then [(i, j)] else [])
                                   [0..width a - 1]))
                 [0..height a - 1])"

definition make_random_move :: "(cell list \<Rightarrow> cell) \<Rightarrow> ai \<Rightarrow> cell option" where
  "make_random_move choice a =
     (if random_moves a \<noteq> [] then Some (choice (random_moves a)) else None)"

subsection \<open>class Minesweeper: nearby_mines\<close>

text \<open>The board is the set of its mined cells: \<open>board[i][j]\<close> is \<open>(i, j) \<in> M\<close>.\<close>

definition nearby_mines :: "int \<Rightarrow> int \<Rightarrow> cell set \<Rightarrow> cell \<Rightarrow> int" where
  "nearby_mines h w M cell =
     fold (\<lambda>p n. if p = cell then n
                 else if in_bounds h w p then (if p \<in> M then n + 1 else n)
                 else n)
          (neighbours cell) 0"


section \<open>Callers and predicates of the specification\<close>

text \<open>A caller that reports observations one after another, as the game loop does
  (\<open>ai.add_knowledge(move, nearby)\<close> once per move), stopping at the first exception.\<close>

fun play :: "(cell \<times> int) list \<Rightarrow> ai \<Rightarrow> error + ai" where
  "play [] a = Inr a"
| "play ((c, n) # obs) a =
     (case add_knowledge c n a of Inl e \<Rightarrow> Inl e | Inr a' \<Rightarrow> play obs a')"

text \<open>The states a caller can bring the knowledge base to with the three mutating
  operations, whatever the arguments.\<close>

inductive reachable :: "ai \<Rightarrow> bool" where
  reachable_init: "reachable (MinesweeperAI h w)"
| reachable_add: "reachable a \<Longrightarrow> add_knowledge c n a = Inr a' \<Longrightarrow> reachable a'"
| reachable_mine: "reachable a \<Longrightarrow> reachable (mark_mine c a)"
| reachable_safe: "reachable a \<Longrightarrow> reachable (mark_safe c a)"

text \<open>The states reached on a board of height \<open>h\<close> and width \<open>w\<close> whose mined cells are
  \<open>M\<close>, when every call tells the truth: \<open>add_knowledge\<close> gets a cell without a mine and
  the number \<open>nearby_mines\<close> of the board, \<open>mark_mine\<close> a mined cell, \<open>mark_safe\<close> a cell
  without a mine.\<close>

inductive truthful :: "int \<Rightarrow> int \<Rightarrow> cell set \<Rightarrow> ai \<Rightarrow> bool" where
  truthful_init: "truthful h w M (MinesweeperAI h w)"
| truthful_add: "truthful h w M a \<Longrightarrow> c \<notin> M
     \<Longrightarrow> add_knowledge c (nearby_mines h w M c) a = Inr a' \<Longrightarrow> truthful h w M a'"
| truthful_mine: "truthful h w M a \<Longrightarrow> c \<in> M \<Longrightarrow> truthful h w M (mark_mine c a)"
| truthful_safe: "truthful h w M a \<Longrightarrow> c \<notin> M \<Longrightarrow> truthful h w M (mark_safe c a)"

text \<open>The cells of the board, in the order of the loops of \<open>make_random_move\<close>.\<close>

definition board_cells :: "int \<Rightarrow> int \<Rightarrow> cell set" where
  "board_cells h w = set (concat (map (\<lambda>i. map (\<lambda>j. (i, j)) [0..w - 1]) [0..h - 1]))"

text \<open>A sentence the simplification pass has something to do with: no cell, or count 0
  with cells, or as many mines as cells.\<close>

definition trivial :: "sentence \<Rightarrow> bool" where
  "trivial s \<longleftrightarrow> card (cells s) = 0
     \<or> (count s = 0 \<and> card (cells s) \<noteq> 0)
     \<or> (int (card (cells s)) = count s \<and> count s > 0)"

text \<open>No sentence mentions a cell that is known to be a mine or known to be safe.\<close>

definition purged :: "ai \<Rightarrow> bool" where
  "purged a \<longleftrightarrow> list_all (\<lambda>s. cells s \<inter> (mines a \<union> safes a) = {}) (knowledge a)"

text \<open>The three sets of facts of the second state include those of the first.\<close>

definition grows :: "ai \<Rightarrow> ai \<Rightarrow> bool" where
  "grows a a' \<longleftrightarrow>
     moves_made a \<subseteq> moves_made a' \<and> safes a \<subseteq> safes a' \<and> mines a \<subseteq> mines a'"

text \<open>The knowledge base agrees with the mined cells \<open>M\<close>: known mines are mined, known
  safes are not, and every sentence counts the mined cells among its cells.\<close>

definition consistent :: "cell set \<Rightarrow> ai \<Rightarrow> bool" where
  "consistent M a \<longleftrightarrow>
     mines a \<subseteq> M \<and> safes a \<inter> M = {}
     \<and> list_all (\<lambda>s. finite (cells s) \<and> count s = int (card (cells s \<inter> M))) (knowledge a)"

section \<open>Sentences: the effect of marking a list of cells\<close>

lemma cells_fold_Sentence_mark_mine:
  "cells (fold Sentence_mark_mine xs s) = cells s - set xs"
  by (induction xs arbitrary: s) (auto simp: Sentence_mark_mine_def)

lemma cells_fold_Sentence_mark_safe:
  "cells (fold Sentence_mark_safe xs s) = cells s - set xs"
  by (induction xs arbitrary: s) (auto simp: Sentence_mark_safe_def)

lemma count_fold_Sentence_mark_safe:
  "count (fold Sentence_mark_safe xs s) = count s"
  by (induction xs arbitrary: s) (auto simp: Sentence_mark_safe_def)

lemma card_Int_insert_step:
  assumes "finite B"
  shows "int (card (A \<inter> insert x B)) = int (card ((A - {x}) \<inter> B)) + (if x \<in> A then 1 else 0)"
proof (cases "x \<in> A")
  case True
  have "A \<inter> insert x B = insert x ((A - {x}) \<inter> B)" using True by auto
  moreover have "x \<notin> (A - {x}) \<inter> B" by simp
  moreover have "finite ((A - {x}) \<inter> B)" using assms by simp
  ultimately show ?thesis using True by simp
next
  case False
  then have "A \<inter> insert x B = (A - {x}) \<inter> B" by auto
  then show ?thesis using False by simp
qed

lemma count_fold_Sentence_mark_mine:
  "count (fold Sentence_mark_mine xs s) = count s - int (card (cells s \<inter> set xs))"
proof (induction xs arbitrary: s)
  case Nil
  show ?case by simp
next
  case (Cons x xs)
  have c: "cells (Sentence_mark_mine x s) = cells s - {x}"
    by (simp add: Sentence_mark_mine_def)
  have n: "count (Sentence_mark_mine x s) = count s - (if x \<in> cells s then 1 else 0)"
    by (simp add: Sentence_mark_mine_def)
  have "int (card (cells s \<inter> set (x # xs)))
        = int (card ((cells s - {x}) \<inter> set xs)) + (if x \<in> cells s then 1 else 0)"
    using card_Int_insert_step [of "set xs" "cells s" x] by simp
  then show ?case using Cons.IH [of "Sentence_mark_mine x s"] c n by simp
qed

lemma known_mine_set_fold:
  "known_mine_set (fold Sentence_mark_mine xs s) = known_mine_set s \<union> (cells s \<inter> set xs)"
  by (induction xs arbitrary: s) (auto simp: Sentence_mark_mine_def)

lemma known_safe_set_fold:
  "known_safe_set (fold Sentence_mark_safe xs s) = known_safe_set s \<union> (cells s \<inter> set xs)"
  by (induction xs arbitrary: s) (auto simp: Sentence_mark_safe_def)

lemma set_set_items: "finite A \<Longrightarrow> set (set_items A) = A"
  by (simp add: set_items_def)

section \<open>The queries of a sentence\<close>

text \<open>
  Claim C1 says that \<open>known_mines\<close> and \<open>known_safes\<close> only read the sentence. They do
  not: when the count equals the number of cells, \<open>known_mines\<close> calls \<open>mark_mine\<close> on
  every cell, and \<open>known_safes\<close> calls \<open>mark_safe\<close> on every cell when the count is 0.
  The sentence \<open>{(0,0)} = 1\<close> loses its cell and its count under \<open>known_mines\<close>, and
  \<open>{(0,0)} = 0\<close> loses its cell under \<open>known_safes\<close>.
\<close>

theorem known_queries_mutate:
  "cells (snd (known_mines (Sentence {(0, 0)} 1))) \<noteq> cells (Sentence {(0, 0)} 1)
   \<and> count (snd (known_mines (Sentence {(0, 0)} 1))) \<noteq> count (Sentence {(0, 0)} 1)
   \<and> cells (snd (known_safes (Sentence {(0, 0)} 0))) \<noteq> cells (Sentence {(0, 0)} 0)"
  by code_simp

text \<open>
  Claim C1, as the code has it: \<open>known_mines\<close> leaves the cells and the count as they are
  unless the count equals the number of cells; then it empties the cell set, sets the
  count to 0 and returns the cells with the mines recorded before. \<open>known_safes\<close> never
  changes the count, and leaves the cells as they are unless the count is 0; then it
  empties the cell set and returns the cells with the safes recorded before.
\<close>

theorem known_queries_effect:
  assumes "finite (cells s)"
  shows "cells (snd (known_mines s)) = (if int (card (cells s)) = count s then {} else cells s)
       \<and> count (snd (known_mines s)) = (if int (card (cells s)) = count s then 0 else count s)
       \<and> fst (known_mines s) =
           (if int (card (cells s)) = count s then known_mine_set s \<union> cells s
            else known_mine_set s)
       \<and> cells (snd (known_safes s)) = (if count s = 0 then {} else cells s)
       \<and> count (snd (known_safes s)) = count s
       \<and> fst (known_safes s) =
           (if count s = 0 then known_safe_set s \<union> cells s else known_safe_set s)"
  using assms
  by (simp add: known_mines_def known_safes_def Let_def set_set_items
      cells_fold_Sentence_mark_mine cells_fold_Sentence_mark_safe count_fold_Sentence_mark_safe
      count_fold_Sentence_mark_mine known_mine_set_fold known_safe_set_fold)

theorem known_queries_effect_witness:
  "cells (snd (known_mines (Sentence {(0, 0), (0, 1)} 2))) = {}
   \<and> count (snd (known_mines (Sentence {(0, 0), (0, 1)} 2))) = 0
   \<and> fst (known_mines (Sentence {(0, 0), (0, 1)} 2)) = {(0, 0), (0, 1)}
   \<and> cells (snd (known_safes (Sentence {(0, 0), (0, 1)} 2))) = {(0, 0), (0, 1)}
   \<and> count (snd (known_safes (Sentence {(0, 0), (0, 1)} 2))) = 2
   \<and> fst (known_safes (Sentence {(0, 0), (0, 1)} 2)) = {}"
  using known_queries_effect [of "Sentence {(0, 0), (0, 1)} 2"]
  by (simp add: Sentence_def)

section \<open>Marking a cell twice\<close>

lemma Sentence_mark_safe_twice:
  "Sentence_mark_safe c (Sentence_mark_safe c s) = Sentence_mark_safe c s"
  by (simp add: Sentence_mark_safe_def)

lemma Sentence_mark_mine_twice:
  "Sentence_mark_mine c (Sentence_mark_mine c s) = Sentence_mark_mine c s"
  by (simp add: Sentence_mark_mine_def)

text \<open>
  Claim C8: \<open>mark_safe\<close> and \<open>mark_mine\<close> are idempotent. In every state of the knowledge
  base (reachable or not) and for every cell, the second of two equal calls changes
  nothing: the whole record, with the recorded sets of every sentence, is the same.
\<close>

theorem mark_idempotent:
  "mark_safe c (mark_safe c a) = mark_safe c a \<and> mark_mine c (mark_mine c a) = mark_mine c a"
  by (simp add: mark_safe_def mark_mine_def Sentence_mark_safe_twice Sentence_mark_mine_twice)

section \<open>Scenarios\<close>

text \<open>
  Claim C10: on a fresh 3 by 3 board, \<open>add_knowledge((1,1), 1)\<close> returns and leaves
  exactly one sentence, over the 8 neighbours of \<open>(1,1)\<close> with count 1.
\<close>

theorem scenario_3:
  "add_knowledge (1, 1) 1 (MinesweeperAI 3 3) =
     Inr \<lparr>height = 3, width = 3, moves_made = {(1, 1)}, mines = {}, safes = {(1, 1)},
          knowledge = [Sentence {(0, 0), (0, 1), (0, 2), (1, 0), (1, 2), (2, 0), (2, 1), (2, 2)} 1]\<rparr>"
  by code_simp

section \<open>Choosing a random move\<close>

lemma set_items_subset: "set (set_items A) \<subseteq> A"
proof (cases "finite A")
  case True
  then show ?thesis by (simp add: set_items_def)
next
  case False
  then show ?thesis by (simp add: set_items_def)
qed

lemma set_random_moves:
  "set (random_moves a) = board_cells (height a) (width a) - (moves_made a \<union> mines a)"
  by (auto simp: random_moves_def board_cells_def)

text \<open>
  Claim C9: \<open>make_random_move\<close> returns a cell of the board that is neither a move made
  nor a known mine whenever there is one, and returns \<open>None\<close> exactly when every cell of
  the board is a move made or a known mine. \<open>random.choice\<close> is any function that picks
  an element of a non-empty list.
\<close>

theorem make_random_move_spec:
  assumes "\<forall>xs. xs \<noteq> [] \<longrightarrow> choice xs \<in> set xs"
  shows "(board_cells (height a) (width a) - (moves_made a \<union> mines a) \<noteq> {}
            \<longrightarrow> (\<exists>c. make_random_move choice a = Some c
                   \<and> c \<in> board_cells (height a) (width a) - (moves_made a \<union> mines a)))
       \<and> (make_random_move choice a = None
            \<longleftrightarrow> board_cells (height a) (width a) \<subseteq> moves_made a \<union> mines a)"
proof -
  let ?free = "board_cells (height a) (width a) - (moves_made a \<union> mines a)"
  have s: "set (random_moves a) = ?free" by (rule set_random_moves)
  show ?thesis
  proof (cases "random_moves a = []")
    case True
    then have "?free = {}" using s by simp
    then show ?thesis using True by (auto simp: make_random_move_def)
  next
    case False
    then have "choice (random_moves a) \<in> ?free" using assms s by blast
    moreover have "\<not> board_cells (height a) (width a) \<subseteq> moves_made a \<union> mines a"
    proof
      assume "board_cells (height a) (width a) \<subseteq> moves_made a \<union> mines a"
      then have "set (random_moves a) = {}" using s by auto
      then show False using False by simp
    qed
    ultimately show ?thesis using False by (simp add: make_random_move_def)
  qed
qed

theorem make_random_move_spec_witness:
  "make_random_move hd (mark_mine (0, 0) (MinesweeperAI 1 2)) = Some (0, 1)
   \<and> (0, 1) \<in> board_cells 1 2 - ({} \<union> {(0, 0)})
   \<and> make_random_move hd (mark_mine (0, 1) (mark_mine (0, 0) (MinesweeperAI 1 2))) = None"
proof -
  have h: "\<forall>xs::cell list. xs \<noteq> [] \<longrightarrow> hd xs \<in> set xs" by simp
  have e1: "height (mark_mine (0, 0) (MinesweeperAI 1 2)) = 1
      \<and> width (mark_mine (0, 0) (MinesweeperAI 1 2)) = 2
      \<and> moves_made (mark_mine (0, 0) (MinesweeperAI 1 2)) = {}
      \<and> mines (mark_mine (0, 0) (MinesweeperAI 1 2)) = {(0, 0)}"
    by (simp add: mark_mine_def MinesweeperAI_def)
  have b: "board_cells 1 2 = {(0, 0), (0, 1)}" by code_simp
  have e2: "height (mark_mine (0, 1) (mark_mine (0, 0) (MinesweeperAI 1 2))) = 1
      \<and> width (mark_mine (0, 1) (mark_mine (0, 0) (MinesweeperAI 1 2))) = 2
      \<and> moves_made (mark_mine (0, 1) (mark_mine (0, 0) (MinesweeperAI 1 2))) = {}
      \<and> mines (mark_mine (0, 1) (mark_mine (0, 0) (MinesweeperAI 1 2))) = {(0, 1), (0, 0)}"
    by (simp add: mark_mine_def MinesweeperAI_def)
  from make_random_move_spec [OF h, of "mark_mine (0, 0) (MinesweeperAI 1 2)"]
  obtain c where c: "make_random_move hd (mark_mine (0, 0) (MinesweeperAI 1 2)) = Some c"
     "c \<in> board_cells 1 2 - ({} \<union> {(0, 0)})"
    using e1 b by auto
  then have "c = (0, 1)" using b by auto
  moreover from make_random_move_spec [OF h, of "mark_mine (0, 1) (mark_mine (0, 0) (MinesweeperAI 1 2))"]
  have "make_random_move hd (mark_mine (0, 1) (mark_mine (0, 0) (MinesweeperAI 1 2))) = None"
    using e2 b by auto
  ultimately show ?thesis using c by simp
qed

section \<open>Marking a list of cells in the knowledge base\<close>

lemma fold_mark_mine:
  "fold mark_mine xs a =
     a\<lparr>mines := mines a \<union> set xs, knowledge := map (fold Sentence_mark_mine xs) (knowledge a)\<rparr>"
proof (induction xs arbitrary: a)
  case Nil
  show ?case by simp
next
  case (Cons x xs)
  have "fold mark_mine (x # xs) a = fold mark_mine xs (mark_mine x a)" by simp
  also have "\<dots> = (mark_mine x a)\<lparr>mines := mines (mark_mine x a) \<union> set xs,
      knowledge := map (fold Sentence_mark_mine xs) (knowledge (mark_mine x a))\<rparr>"
    by (rule Cons.IH)
  also have "\<dots> = a\<lparr>mines := mines a \<union> set (x # xs),
      knowledge := map (fold Sentence_mark_mine (x # xs)) (knowledge a)\<rparr>"
    by (simp add: mark_mine_def)
  finally show ?case .
qed

lemma fold_mark_safe:
  "fold mark_safe xs a =
     a\<lparr>safes := safes a \<union> set xs, knowledge := map (fold Sentence_mark_safe xs) (knowledge a)\<rparr>"
proof (induction xs arbitrary: a)
  case Nil
  show ?case by simp
next
  case (Cons x xs)
  have "fold mark_safe (x # xs) a = fold mark_safe xs (mark_safe x a)" by simp
  also have "\<dots> = (mark_safe x a)\<lparr>safes := safes (mark_safe x a) \<union> set xs,
      knowledge := map (fold Sentence_mark_safe xs) (knowledge (mark_safe x a))\<rparr>"
    by (rule Cons.IH)
  also have "\<dots> = a\<lparr>safes := safes a \<union> set (x # xs),
      knowledge := map (fold Sentence_mark_safe (x # xs)) (knowledge a)\<rparr>"
    by (simp add: mark_safe_def)
  finally show ?case .
qed

text \<open>A property that both marking operations keep is kept by the first loop.\<close>

lemma fold_keeps:
  assumes "\<And>c b. P b \<Longrightarrow> P (f c b)" and "P a"
  shows "P (fold f xs a)"
  using assms(2) by (induction xs arbitrary: a) (simp_all add: assms(1))

lemma sweep_step_keeps:
  assumes m: "\<And>c b. P b \<Longrightarrow> P (mark_mine c b)"
    and s: "\<And>c b. P b \<Longrightarrow> P (mark_safe c b)"
    and a: "P a"
  shows "P (fst (sweep_step i (a, r)))"
proof -
  have 1: "\<And>xs. P (fold mark_mine xs a)"
    using fold_keeps [of P mark_mine a] m a by blast
  have 2: "\<And>xs b. P b \<Longrightarrow> P (fold mark_safe xs b)"
    using fold_keeps [of P mark_safe] s by blast
  show ?thesis
    unfolding sweep_step_def Let_def
    by (simp add: 1 2 a split: prod.splits)
qed

lemma fold_sweep_step_keeps:
  assumes m: "\<And>c b. P b \<Longrightarrow> P (mark_mine c b)"
    and s: "\<And>c b. P b \<Longrightarrow> P (mark_safe c b)"
    and a: "P (fst st)"
  shows "P (fst (fold sweep_step is st))"
  using a
proof (induction "is" arbitrary: st)
  case Nil
  then show ?case by simp
next
  case (Cons i "is")
  obtain b r where st: "st = (b, r)" by (cases st)
  have "P (fst (sweep_step i st))"
    using sweep_step_keeps [of P b i r] m s Cons.prems st by simp
  then show ?case using Cons.IH by simp
qed

lemma sweep_keeps:
  assumes "\<And>c b. P b \<Longrightarrow> P (mark_mine c b)"
    and "\<And>c b. P b \<Longrightarrow> P (mark_safe c b)"
    and "P a"
  shows "P (fst (sweep a))"
  unfolding sweep_def using fold_sweep_step_keeps [of P "(a, [])"] assms by simp

section \<open>The parts of add_knowledge, one by one\<close>

lemma set_remove_first: "set (remove_first v ks) \<subseteq> set ks"
  by (induction ks) auto

lemma set_fold_discard: "set (fold (discard objs) is ks) \<subseteq> set ks"
proof (induction "is" arbitrary: ks)
  case Nil
  show ?case by simp
next
  case (Cons i "is")
  have "set (discard objs i ks) \<subseteq> set ks"
    using set_remove_first [of "objs ! i" ks] by (simp add: discard_def)
  then show ?case using Cons.IH [of "discard objs i ks"] by auto
qed

lemma before_purge_facts:
  "mines (before_purge a) = mines (fst (sweep a))
   \<and> safes (before_purge a) = safes (fst (sweep a))
   \<and> moves_made (before_purge a) = moves_made (fst (sweep a))
   \<and> height (before_purge a) = height (fst (sweep a))
   \<and> width (before_purge a) = width (fst (sweep a))"
  by (simp add: before_purge_def split: prod.splits)

lemma before_purge_knowledge:
  "set (knowledge (before_purge a)) \<subseteq> set (knowledge (fst (sweep a)))"
  by (simp add: before_purge_def set_fold_discard split: prod.splits)

lemma cells_fold_drop:
  "cells (fold (\<lambda>c' s'. if c = c' then s'\<lparr>cells := cells s' - {c'}\<rparr> else s') xs t) \<subseteq> cells t"
proof (induction xs arbitrary: t)
  case Nil
  show ?case by simp
next
  case (Cons x xs)
  show ?case
  proof (cases "c = x")
    case True
    then show ?thesis using Cons.IH [of "t\<lparr>cells := cells t - {x}\<rparr>"] by auto
  next
    case False
    then show ?thesis using Cons.IH [of t] by simp
  qed
qed

lemma cells_drop_cell: "cells (drop_cell c s) \<subseteq> cells s"
  unfolding drop_cell_def by (rule cells_fold_drop)

lemma count_fold_drop:
  "count (fold (\<lambda>c' s'. if c = c' then s'\<lparr>cells := cells s' - {c'}\<rparr> else s') xs t) = count t"
  by (induction xs arbitrary: t) simp_all

lemma count_drop_cell: "count (drop_cell c s) = count s"
  unfolding drop_cell_def by (rule count_fold_drop)

lemma fold_neighbour_step_cells:
  "fst (fold (neighbour_step a c) ps acc) \<subseteq> fst acc \<union> {p. p \<notin> safes a \<and> p \<notin> mines a}"
proof (induction ps arbitrary: acc)
  case Nil
  show ?case by simp
next
  case (Cons p ps)
  have "fst (neighbour_step a c p acc) \<subseteq> fst acc \<union> {p. p \<notin> safes a \<and> p \<notin> mines a}"
    by (cases acc) (auto simp: neighbour_step_def)
  then show ?case using Cons.IH [of "neighbour_step a c p acc"] by auto
qed

text \<open>The state in which \<open>add_knowledge\<close> starts its first simplification pass.\<close>

lemma observe_facts:
  "mines (snd (observe c n a)) = mines a
   \<and> safes (snd (observe c n a)) = insert c (safes a)
   \<and> moves_made (snd (observe c n a)) = insert c (moves_made a)
   \<and> height (snd (observe c n a)) = height a
   \<and> width (snd (observe c n a)) = width a"
  by (simp add: observe_def Let_def mark_safe_def split: prod.splits)

lemma observe_knowledge:
  assumes "k \<in> set (knowledge (snd (observe c n a)))"
  shows "\<exists>s. k = drop_cell c s
     \<and> (s = fst (observe c n a) \<or> s \<in> Sentence_mark_safe c ` set (knowledge a))"
  using assms
  by (auto simp: observe_def Let_def mark_safe_def split: prod.splits if_splits)

lemma observe_new_cells:
  "cells (fst (observe c n a)) \<inter> (mines a \<union> insert c (safes a)) = {}"
proof -
  let ?a1 = "mark_safe c (a\<lparr>moves_made := insert c (moves_made a)\<rparr>)"
  obtain nc n' where f: "fold (neighbour_step ?a1 c) (neighbours c) ({}, n) = (nc, n')"
    by (cases "fold (neighbour_step ?a1 c) (neighbours c) ({}, n)")
  have "nc \<subseteq> {p. p \<notin> safes ?a1 \<and> p \<notin> mines ?a1}"
    using fold_neighbour_step_cells [of ?a1 c "neighbours c" "({}, n)"] f by simp
  moreover have "fst (observe c n a) = Sentence nc n'"
    using f by (simp add: observe_def Let_def)
  ultimately show ?thesis by (auto simp: Sentence_def mark_safe_def)
qed

lemma resolution_cells:
  assumes "d \<in> set (resolution ks)"
  shows "\<exists>s\<in>set ks. cells d \<subseteq> cells s"
proof -
  from assms obtain s t where st: "s \<in> set ks" "t \<in> set ks" "d \<in> set (resolve_pair s t)"
    by (auto simp: resolution_def)
  then have "cells d \<subseteq> cells s \<or> cells d \<subseteq> cells t"
    by (auto simp: resolve_pair_def Sentence_def split: if_splits)
  then show ?thesis using st by blast
qed

lemma resolve_facts:
  "mines (resolve ns a) = mines a \<and> safes (resolve ns a) = safes a
   \<and> moves_made (resolve ns a) = moves_made a
   \<and> height (resolve ns a) = height a \<and> width (resolve ns a) = width a
   \<and> knowledge (resolve ns a) = knowledge a @ resolution (knowledge a)"
  by (simp add: resolve_def Let_def sentence_truthy_def)

section \<open>No sentence mentions a known cell\<close>

lemma purged_iff:
  "purged a \<longleftrightarrow> (\<forall>s\<in>set (knowledge a). cells s \<inter> (mines a \<union> safes a) = {})"
  by (simp add: purged_def list_all_iff)

lemma cells_Sentence_mark_mine: "cells (Sentence_mark_mine c s) = cells s - {c}"
  by (simp add: Sentence_mark_mine_def)

lemma cells_Sentence_mark_safe: "cells (Sentence_mark_safe c s) = cells s - {c}"
  by (simp add: Sentence_mark_safe_def)

lemma purged_mark_mine:
  assumes "purged a"
  shows "purged (mark_mine c a)"
proof -
  have "(cells s - {c}) \<inter> (insert c (mines a) \<union> safes a) = {}"
    if "s \<in> set (knowledge a)" for s
    using assms that by (fastforce simp: purged_iff)
  then show ?thesis by (simp add: purged_iff mark_mine_def cells_Sentence_mark_mine)
qed

lemma purged_mark_safe:
  assumes "purged a"
  shows "purged (mark_safe c a)"
proof -
  have "(cells s - {c}) \<inter> (mines a \<union> insert c (safes a)) = {}"
    if "s \<in> set (knowledge a)" for s
    using assms that by (fastforce simp: purged_iff)
  then show ?thesis by (simp add: purged_iff mark_safe_def cells_Sentence_mark_safe)
qed

lemma purged_before_purge:
  assumes "purged a"
  shows "purged (before_purge a)"
proof -
  have "purged (fst (sweep a))"
    using sweep_keeps [of purged a] purged_mark_mine purged_mark_safe assms by blast
  then show ?thesis
    using before_purge_knowledge [of a] before_purge_facts [of a]
    by (auto simp: purged_iff)
qed

lemma purge_loop_purged:
  assumes "purged a"
  shows "purge_loop a = Inr a"
proof -
  have "\<not> list_ex (\<lambda>s. list_ex (\<lambda>c. c \<in> mines a) (set_items (cells s))) (knowledge a)"
    using assms set_items_subset by (auto simp: purged_iff list_ex_iff)
  then show ?thesis by (simp add: purge_loop_def)
qed

lemma mark_sels_purged:
  assumes "purged a"
  shows "mark_sels_as_mine_or_safe a = Inr (before_purge a)"
  using purge_loop_purged [OF purged_before_purge [OF assms]]
  by (simp add: mark_sels_as_mine_or_safe_def)

lemma purged_observe:
  assumes "purged a"
  shows "purged (snd (observe c n a))"
proof -
  have "cells k \<inter> (mines a \<union> insert c (safes a)) = {}"
    if k: "k \<in> set (knowledge (snd (observe c n a)))" for k
  proof -
    from observe_knowledge [OF k] obtain s where s: "k = drop_cell c s"
      "s = fst (observe c n a) \<or> s \<in> Sentence_mark_safe c ` set (knowledge a)" by blast
    have "cells s \<inter> (mines a \<union> insert c (safes a)) = {}"
      using s(2)
    proof
      assume "s = fst (observe c n a)"
      then show ?thesis using observe_new_cells [of c n a] by simp
    next
      assume "s \<in> Sentence_mark_safe c ` set (knowledge a)"
      then obtain s0 where s0: "s0 \<in> set (knowledge a)" "s = Sentence_mark_safe c s0" by blast
      have "cells s0 \<inter> (mines a \<union> safes a) = {}" using assms s0(1) by (simp add: purged_iff)
      then show ?thesis using s0(2) by (auto simp: cells_Sentence_mark_safe)
    qed
    then show ?thesis using cells_drop_cell [of c s] s(1) by auto
  qed
  then show ?thesis using observe_facts [of c n a] by (simp add: purged_iff)
qed

lemma purged_resolve:
  assumes "purged a"
  shows "purged (resolve ns a)"
proof -
  have "cells d \<inter> (mines a \<union> safes a) = {}" if "d \<in> set (resolution (knowledge a))" for d
    using resolution_cells [OF that] assms by (auto simp: purged_iff)
  then show ?thesis using assms resolve_facts [of ns a] by (auto simp: purged_iff)
qed

lemma add_knowledge_purged:
  assumes "purged a"
  shows "add_knowledge c n a =
           Inr (before_purge (resolve (fst (observe c n a))
                                      (before_purge (snd (observe c n a)))))"
proof -
  have 1: "purged (snd (observe c n a))" by (rule purged_observe [OF assms])
  have 2: "purged (resolve (fst (observe c n a)) (before_purge (snd (observe c n a))))"
    by (rule purged_resolve [OF purged_before_purge [OF 1]])
  obtain ns a3 where o: "observe c n a = (ns, a3)" by (cases "observe c n a")
  have "mark_sels_as_mine_or_safe a3 = Inr (before_purge a3)"
    using mark_sels_purged [OF 1] o by simp
  moreover have "mark_sels_as_mine_or_safe (resolve ns (before_purge a3))
      = Inr (before_purge (resolve ns (before_purge a3)))"
    using mark_sels_purged [OF 2] o by simp
  ultimately show ?thesis using o by (simp add: add_knowledge_def)
qed

lemma purged_init: "purged (MinesweeperAI h w)"
  by (simp add: purged_def MinesweeperAI_def)

lemma reachable_purged: "reachable a \<Longrightarrow> purged a"
proof (induction rule: reachable.induct)
  case (reachable_init h w)
  show ?case by (rule purged_init)
next
  case (reachable_add a c n a')
  from add_knowledge_purged [OF reachable_add.IH, of c n] reachable_add.hyps(2)
  have "a' = before_purge (resolve (fst (observe c n a)) (before_purge (snd (observe c n a))))"
    by simp
  then show ?case
    using purged_before_purge [OF purged_resolve [OF purged_before_purge
          [OF purged_observe [OF reachable_add.IH]]]] by simp
next
  case (reachable_mine a c)
  then show ?case by (simp add: purged_mark_mine)
next
  case (reachable_safe a c)
  then show ?case by (simp add: purged_mark_safe)
qed

text \<open>
  Claim C6: \<open>add_knowledge\<close> never raises. In every state that the three mutating
  operations can reach, for every cell and every integer count, \<open>add_knowledge\<close>
  returns a state; and both times the purge loop of the simplification pass runs, no
  sentence holds a cell of \<open>mines\<close> or of \<open>safes\<close>, so that the loop returns its input
  and never reaches \<open>sentence.remove\<close>.
\<close>

theorem add_knowledge_total:
  assumes "reachable a"
  shows "(\<exists>a'. add_knowledge c n a = Inr a')
       \<and> purged (before_purge (snd (observe c n a)))
       \<and> purge_loop (before_purge (snd (observe c n a)))
           = Inr (before_purge (snd (observe c n a)))
       \<and> purged (before_purge (resolve (fst (observe c n a))
                                        (before_purge (snd (observe c n a)))))
       \<and> purge_loop (before_purge (resolve (fst (observe c n a))
                                            (before_purge (snd (observe c n a)))))
           = Inr (before_purge (resolve (fst (observe c n a))
                                        (before_purge (snd (observe c n a)))))"
proof -
  have p: "purged a" by (rule reachable_purged [OF assms])
  have 1: "purged (before_purge (snd (observe c n a)))"
    by (rule purged_before_purge [OF purged_observe [OF p]])
  have 2: "purged (before_purge (resolve (fst (observe c n a))
                                         (before_purge (snd (observe c n a)))))"
    by (rule purged_before_purge [OF purged_resolve [OF 1]])
  show ?thesis
    using add_knowledge_purged [OF p, of c n] 1 2 purge_loop_purged [OF 1]
      purge_loop_purged [OF 2]
    by simp
qed

theorem add_knowledge_total_witness:
  "\<exists>a'. add_knowledge (0, 1) 7 (mark_mine (0, 0) (MinesweeperAI 3 3)) = Inr a'"
  using add_knowledge_total [OF reachable_mine [OF reachable_init],
      where c = "(0, 1)" and n = 7 and c1 = "(0, 0)" and h2 = 3 and w2 = 3]
  by simp

section \<open>The sets of facts only grow\<close>

lemma grows_refl: "grows a a"
  by (simp add: grows_def)

lemma grows_trans: "grows a b \<Longrightarrow> grows b c \<Longrightarrow> grows a c"
  by (auto simp: grows_def)

lemma grows_mark_mine: "grows a (mark_mine c a)"
  by (auto simp: grows_def mark_mine_def)

lemma grows_mark_safe: "grows a (mark_safe c a)"
  by (auto simp: grows_def mark_safe_def)

lemma grows_before_purge: "grows a (before_purge a)"
proof -
  have "grows a (fst (sweep a))"
  proof (rule sweep_keeps [of "grows a" a])
    show "grows a (mark_mine c b)" if "grows a b" for c b
      using that grows_mark_mine [of b c] by (rule grows_trans)
    show "grows a (mark_safe c b)" if "grows a b" for c b
      using that grows_mark_safe [of b c] by (rule grows_trans)
    show "grows a a" by (rule grows_refl)
  qed
  then show ?thesis using before_purge_facts [of a] by (simp add: grows_def)
qed

lemma mark_sels_Inr:
  assumes "mark_sels_as_mine_or_safe a = Inr a'"
  shows "a' = before_purge a"
  using assms by (simp add: mark_sels_as_mine_or_safe_def purge_loop_def split: if_splits)

lemma add_knowledge_Inr:
  assumes "add_knowledge c n a = Inr a'"
  shows "a' = before_purge (resolve (fst (observe c n a)) (before_purge (snd (observe c n a))))"
proof -
  obtain ns a3 where o: "observe c n a = (ns, a3)" by (cases "observe c n a")
  from assms o obtain a4 where a4: "mark_sels_as_mine_or_safe a3 = Inr a4"
      "mark_sels_as_mine_or_safe (resolve ns a4) = Inr a'"
    by (auto simp: add_knowledge_def split: sum.splits)
  show ?thesis using mark_sels_Inr [OF a4(1)] mark_sels_Inr [OF a4(2)] o by simp
qed

text \<open>
  Claim C7: \<open>safes\<close>, \<open>mines\<close> and \<open>moves_made\<close> only grow. After \<open>mark_mine\<close>, after
  \<open>mark_safe\<close> and after every \<open>add_knowledge\<close> that returns, each of the three sets
  includes what it held before the call.
\<close>

theorem facts_grow:
  "grows a (mark_mine c a) \<and> grows a (mark_safe c a)
   \<and> (add_knowledge c n a = Inr a' \<longrightarrow> grows a a')"
proof -
  have "grows a a'" if r: "add_knowledge c n a = Inr a'"
  proof -
    let ?a3 = "snd (observe c n a)"
    let ?a5 = "resolve (fst (observe c n a)) (before_purge ?a3)"
    have "grows a ?a3" using observe_facts [of c n a] by (auto simp: grows_def)
    moreover have "grows ?a3 (before_purge ?a3)" by (rule grows_before_purge)
    moreover have "grows (before_purge ?a3) ?a5"
      using resolve_facts [of "fst (observe c n a)" "before_purge ?a3"] by (simp add: grows_def)
    moreover have "grows ?a5 (before_purge ?a5)" by (rule grows_before_purge)
    ultimately have "grows a (before_purge ?a5)" by (blast intro: grows_trans)
    then show ?thesis using add_knowledge_Inr [OF r] by simp
  qed
  then show ?thesis using grows_mark_mine grows_mark_safe by blast
qed

theorem facts_grow_witness:
  "grows (mark_mine (0, 0) (MinesweeperAI 2 2))
         \<lparr>height = 2, width = 2, moves_made = {(0, 1)}, mines = {(0, 0)},
          safes = {(0, 1), (1, 0), (1, 1)}, knowledge = []\<rparr>"
proof -
  have "add_knowledge (0, 1) 1 (mark_mine (0, 0) (MinesweeperAI 2 2)) =
      Inr \<lparr>height = 2, width = 2, moves_made = {(0, 1)}, mines = {(0, 0)},
           safes = {(0, 1), (1, 0), (1, 1)}, knowledge = []\<rparr>"
    by code_simp
  then show ?thesis
    using facts_grow [where a = "mark_mine (0, 0) (MinesweeperAI 2 2)" and c = "(0, 1)"
        and n = 1]
    by simp
qed

section \<open>The resolution step\<close>

text \<open>
  Claim C3 holds for the shape of the derived sentences and fails for the second half:
  the resolution step appends every derived sentence without looking whether an equal
  one is present, and it visits every pair of sentences in both orders, so that each
  derived sentence arrives twice. On a 2 by 4 board, after \<open>add_knowledge((0,3), 1)\<close>,
  the call \<open>add_knowledge((1,2), 2)\<close> starts its resolution step with the two sentences
  \<open>{(0,2),(1,3)} = 1\<close> and \<open>{(0,1),(0,2),(1,1),(1,3)} = 2\<close> and ends it with
  \<open>{(0,1),(1,1)} = 1\<close> added twice; both copies are in the knowledge base when the call
  returns.
\<close>

theorem resolution_appends_duplicates:
  "add_knowledge (0, 3) 1 (MinesweeperAI 2 4) =
     Inr \<lparr>height = 2, width = 4, moves_made = {(0, 3)}, mines = {}, safes = {(0, 3)},
          knowledge = [Sentence {(0, 2), (1, 2), (1, 3)} 1]\<rparr>
   \<and> map (\<lambda>s. (cells s, count s))
         (knowledge (before_purge (snd (observe (1, 2) 2
            \<lparr>height = 2, width = 4, moves_made = {(0, 3)}, mines = {}, safes = {(0, 3)},
             knowledge = [Sentence {(0, 2), (1, 2), (1, 3)} 1]\<rparr>))))
       = [({(0, 2), (1, 3)}, 1), ({(0, 1), (0, 2), (1, 1), (1, 3)}, 2)]
   \<and> resolution [Sentence {(0, 2), (1, 3)} 1, Sentence {(0, 1), (0, 2), (1, 1), (1, 3)} 2]
       = [Sentence {(0, 1), (1, 1)} 1, Sentence {(0, 1), (1, 1)} 1]
   \<and> map_sum id (\<lambda>a. map (\<lambda>s. (cells s, count s)) (knowledge a))
         (add_knowledge (1, 2) 2
            \<lparr>height = 2, width = 4, moves_made = {(0, 3)}, mines = {}, safes = {(0, 3)},
             knowledge = [Sentence {(0, 2), (1, 2), (1, 3)} 1]\<rparr>)
       = Inr [({(0, 2), (1, 3)}, 1), ({(0, 1), (0, 2), (1, 1), (1, 3)}, 2),
              ({(0, 1), (1, 1)}, 1), ({(0, 1), (1, 1)}, 1)]"
  by code_simp

section \<open>Fixpoints of the simplification pass\<close>

text \<open>
  Claim C2 is what \<open>add_knowledge\<close> is documented to do (step 4 of its docstring: mark
  any additional cells as safe or as mines if it can be concluded from the knowledge
  base), and the code misses it: the simplification pass is one sweep over the
  sentences, run twice, and a sentence that becomes trivial after the sweep has visited
  it stays. On a 2 by 3 board with mines at \<open>(0,0)\<close> and \<open>(0,2)\<close>, the observations
  \<open>(1,0) \<mapsto> 1\<close>, \<open>(1,2) \<mapsto> 1\<close>, \<open>(0,1) \<mapsto> 2\<close> are the board's own counts. When the
  third call returns, the knowledge base holds the sentence \<open>{(1,1)} = 0\<close> three times,
  \<open>(1,1)\<close> is not in \<open>safes\<close>, and no safe cell is left to move to; one more pass marks
  \<open>(1,1)\<close> safe and removes the three sentences.
\<close>

theorem add_knowledge_no_fixpoint:
  "map (nearby_mines 2 3 {(0, 0), (0, 2)}) [(1, 0), (1, 2), (0, 1)] = [1, 1, 2]
   \<and> map_sum id (\<lambda>a. map (\<lambda>s. (cells s, count s)) (knowledge a))
      (play [((1, 0), 1), ((1, 2), 1), ((0, 1), 2)] (MinesweeperAI 2 3))
     = Inr [({(1, 1)}, 0), ({(1, 1)}, 0), ({(1, 1)}, 0)]
   \<and> trivial (Sentence {(1, 1)} 0)
   \<and> map_sum id (\<lambda>a. ((1, 1) \<in> safes a, safes a - moves_made a))
      (play [((1, 0), 1), ((1, 2), 1), ((0, 1), 2)] (MinesweeperAI 2 3))
     = Inr (False, {})
   \<and> map_sum id (\<lambda>a. case_sum (\<lambda>e. None) (\<lambda>b. Some (safes b - safes a, knowledge b))
                        (mark_sels_as_mine_or_safe a))
        (play [((1, 0), 1), ((1, 2), 1), ((0, 1), 2)] (MinesweeperAI 2 3))
     = Inr (Some ({(1, 1)}, []))"
  by code_simp

lemma sweep_step_not_trivial:
  assumes "\<not> trivial (knowledge a ! i)"
  shows "sweep_step i (a, r) = (a, r)"
proof -
  let ?s = "knowledge a ! i"
  from assms have c: "card (cells ?s) \<noteq> 0" and z: "count ?s \<noteq> 0"
    and m: "int (card (cells ?s)) \<noteq> count ?s"
    by (auto simp: trivial_def)
  show ?thesis unfolding sweep_step_def Let_def using c z m by simp
qed

lemma fold_sweep_step_not_trivial:
  assumes "\<forall>i\<in>set is. \<not> trivial (knowledge a ! i)"
  shows "fold sweep_step is (a, r) = (a, r)"
  using assms by (induction "is") (simp_all add: sweep_step_not_trivial)

lemma sweep_step_rem:
  "\<exists>t. snd (sweep_step i (a, r)) = r @ t \<and> set t \<subseteq> {i}"
  unfolding sweep_step_def Let_def by (auto split: prod.splits)

lemma sweep_step_trivial:
  assumes "trivial (knowledge a ! i)"
  shows "snd (sweep_step i (a, r)) \<noteq> []"
proof -
  let ?s = "knowledge a ! i"
  consider "card (cells ?s) = 0" | "card (cells ?s) \<noteq> 0" "count ?s = 0"
    | "card (cells ?s) \<noteq> 0" "int (card (cells ?s)) = count ?s" "count ?s \<noteq> 0"
    using assms by (auto simp: trivial_def)
  then show ?thesis
  proof cases
    case 1
    then show ?thesis unfolding sweep_step_def Let_def by simp
  next
    case 2
    then show ?thesis unfolding sweep_step_def Let_def by simp
  next
    case 3
    then show ?thesis unfolding sweep_step_def Let_def by (simp split: prod.splits)
  qed
qed

lemma fold_sweep_step_rem:
  "\<exists>t. snd (fold sweep_step is (a, r)) = r @ t \<and> set t \<subseteq> set is"
proof (induction "is" arbitrary: a r)
  case Nil
  show ?case by simp
next
  case (Cons i "is")
  obtain b r' where st: "sweep_step i (a, r) = (b, r')" by (cases "sweep_step i (a, r)")
  from sweep_step_rem [of i a r] st obtain t where t: "r' = r @ t" "set t \<subseteq> {i}" by auto
  from Cons.IH [of b r'] obtain u where
    u: "snd (fold sweep_step is (b, r')) = r' @ u" "set u \<subseteq> set is" by blast
  have "snd (fold sweep_step (i # is) (a, r)) = r @ (t @ u)" using st t u by simp
  moreover have "set (t @ u) \<subseteq> set (i # is)" using t u by auto
  ultimately show ?case by blast
qed

lemma fold_sweep_step_trivial:
  assumes "\<exists>i\<in>set is. trivial (knowledge a ! i)"
  shows "snd (fold sweep_step is (a, r)) \<noteq> []"
  using assms
proof (induction "is" arbitrary: a r)
  case Nil
  then show ?case by simp
next
  case (Cons i "is")
  show ?case
  proof (cases "trivial (knowledge a ! i)")
    case True
    obtain b r' where st: "sweep_step i (a, r) = (b, r')" by (cases "sweep_step i (a, r)")
    then have "r' \<noteq> []" using sweep_step_trivial [OF True, of r] by simp
    moreover obtain t where "snd (fold sweep_step is (b, r')) = r' @ t"
      using fold_sweep_step_rem [of "is" b r'] by blast
    ultimately show ?thesis using st by simp
  next
    case False
    then have "\<exists>j\<in>set is. trivial (knowledge a ! j)" using Cons.prems by auto
    then show ?thesis using Cons.IH [of a r] sweep_step_not_trivial [OF False] by simp
  qed
qed

lemma length_knowledge_sweep: "length (knowledge (fst (sweep a))) = length (knowledge a)"
proof (rule sweep_keeps [of "\<lambda>b. length (knowledge b) = length (knowledge a)" a])
  show "length (knowledge (mark_mine c b)) = length (knowledge a)"
    if "length (knowledge b) = length (knowledge a)" for c b
    using that by (simp add: mark_mine_def)
  show "length (knowledge (mark_safe c b)) = length (knowledge a)"
    if "length (knowledge b) = length (knowledge a)" for c b
    using that by (simp add: mark_safe_def)
  show "length (knowledge a) = length (knowledge a)" by simp
qed

lemma length_remove_first: "length (remove_first v ks) \<le> length ks"
  by (induction ks) auto

lemma length_remove_first_in:
  "sentence_in v ks \<Longrightarrow> Suc (length (remove_first v ks)) = length ks"
  by (induction ks) (auto simp: sentence_in_def)

lemma length_fold_discard: "length (fold (discard objs) is ks) \<le> length ks"
proof (induction "is" arbitrary: ks)
  case Nil
  show ?case by simp
next
  case (Cons i "is")
  have "length (discard objs i ks) \<le> length ks"
    using length_remove_first [of "objs ! i" ks] by (simp add: discard_def)
  then show ?case using Cons.IH [of "discard objs i ks"] by simp
qed

lemma sentence_in_nth: "i < length ks \<Longrightarrow> sentence_in (ks ! i) ks"
  by (auto simp: sentence_in_def list_ex_iff sentence_eq_def)

lemma before_purge_shrinks:
  assumes "s \<in> set (knowledge a)" and "trivial s"
  shows "length (knowledge (before_purge a)) < length (knowledge a)"
proof -
  obtain a1 rem where sw: "sweep a = (a1, rem)" by (cases "sweep a")
  let ?n = "length (knowledge a)"
  from assms obtain i where i: "i < ?n" "knowledge a ! i = s" by (auto simp: in_set_conv_nth)
  then have "\<exists>j\<in>set [0..<?n]. trivial (knowledge a ! j)" using assms(2) by auto
  then have ne: "rem \<noteq> []"
    using fold_sweep_step_trivial [of "[0..<?n]" a "[]"] sw by (simp add: sweep_def)
  obtain t where "rem = [] @ t" "set t \<subseteq> set [0..<?n]"
    using fold_sweep_step_rem [of "[0..<?n]" a "[]"] sw by (auto simp: sweep_def)
  then have sub: "set rem \<subseteq> {0..<?n}" by simp
  have len: "length (knowledge a1) = ?n" using length_knowledge_sweep [of a] sw by simp
  from ne obtain j js where rem: "rem = j # js" by (cases rem) auto
  then have j: "j < length (knowledge a1)" using sub len by simp
  have "Suc (length (discard (knowledge a1) j (knowledge a1))) = length (knowledge a1)"
    using sentence_in_nth [OF j] length_remove_first_in [of "knowledge a1 ! j" "knowledge a1"]
    by (simp add: discard_def)
  moreover have "length (fold (discard (knowledge a1)) js (discard (knowledge a1) j (knowledge a1)))
      \<le> length (discard (knowledge a1) j (knowledge a1))"
    by (rule length_fold_discard)
  ultimately have "length (fold (discard (knowledge a1)) rem (knowledge a1)) < ?n"
    using rem len by simp
  then show ?thesis using sw by (simp add: before_purge_def)
qed

lemma before_purge_not_trivial:
  assumes "\<forall>s\<in>set (knowledge a). \<not> trivial s"
  shows "before_purge a = a"
proof -
  have "\<forall>i\<in>set [0..<length (knowledge a)]. \<not> trivial (knowledge a ! i)"
    using assms by simp
  then have "sweep a = (a, [])"
    unfolding sweep_def by (rule fold_sweep_step_not_trivial)
  then show ?thesis by (simp add: before_purge_def)
qed

text \<open>
  The states that the simplification pass leaves as they are: in a reachable state, one
  more pass returns the state unchanged if and only if no sentence has an empty cell
  set, none has count 0 with cells, and none has as many mines as cells.
\<close>

lemma simplification_fixpoint:
  assumes "reachable a"
  shows "mark_sels_as_mine_or_safe a = Inr a \<longleftrightarrow> \<not> list_ex trivial (knowledge a)"
proof
  assume r: "mark_sels_as_mine_or_safe a = Inr a"
  show "\<not> list_ex trivial (knowledge a)"
  proof
    assume "list_ex trivial (knowledge a)"
    then obtain s where "s \<in> set (knowledge a)" "trivial s" by (auto simp: list_ex_iff)
    then have "length (knowledge (before_purge a)) < length (knowledge a)"
      by (rule before_purge_shrinks)
    then show False using mark_sels_Inr [OF r] by simp
  qed
next
  assume "\<not> list_ex trivial (knowledge a)"
  then have "before_purge a = a" using before_purge_not_trivial [of a] by (simp add: list_ex_iff)
  then show "mark_sels_as_mine_or_safe a = Inr a"
    using mark_sels_purged [OF reachable_purged [OF assms]] by simp
qed

lemma simplification_fixpoint_example:
  "mark_sels_as_mine_or_safe
     \<lparr>height = 2, width = 2, moves_made = {(0, 0)}, mines = {}, safes = {(0, 0)},
      knowledge = [Sentence {(0, 1), (1, 0), (1, 1)} 1]\<rparr>
   = Inr \<lparr>height = 2, width = 2, moves_made = {(0, 0)}, mines = {}, safes = {(0, 0)},
          knowledge = [Sentence {(0, 1), (1, 0), (1, 1)} 1]\<rparr>"
proof -
  let ?A = "\<lparr>height = 2, width = 2, moves_made = {(0, 0)}, mines = {}, safes = {(0, 0)},
      knowledge = [Sentence {(0, 1), (1, 0), (1, 1)} 1]\<rparr>"
  have e: "add_knowledge (0, 0) 1 (MinesweeperAI 2 2) = Inr ?A" by code_simp
  have r: "reachable ?A" by (rule reachable_add [OF reachable_init e])
  have t: "\<not> list_ex trivial (knowledge ?A)" by code_simp
  show ?thesis using simplification_fixpoint [OF r] t by simp
qed

section \<open>Agreement with the board\<close>

lemma card_Int_remove_in:
  assumes "finite A" and "c \<in> A" and "c \<in> M"
  shows "int (card ((A - {c}) \<inter> M)) = int (card (A \<inter> M)) - 1"
proof -
  have e: "(A - {c}) \<inter> M = (A \<inter> M) - {c}" by auto
  have "c \<in> A \<inter> M" using assms by simp
  moreover have "finite (A \<inter> M)" using assms by simp
  ultimately have "card ((A \<inter> M) - {c}) = card (A \<inter> M) - 1 \<and> 0 < card (A \<inter> M)"
    by (auto simp: card_gt_0_iff)
  then show ?thesis using e by simp
qed

lemma card_Int_remove_out:
  assumes "c \<notin> M"
  shows "(A - {c}) \<inter> M = A \<inter> M"
  using assms by auto

lemma card_Int_full:
  assumes "finite A" and "int (card A) = int (card (A \<inter> M))"
  shows "A \<subseteq> M"
proof -
  have "A \<inter> M = A"
    using card_subset_eq [of A "A \<inter> M"] assms by simp
  then show ?thesis by auto
qed

lemma card_Int_none:
  assumes "finite A" and "int (card (A \<inter> M)) = 0"
  shows "A \<inter> M = {}"
  using assms by simp

lemma card_Int_diff:
  assumes "finite B" and "A \<subseteq> B"
  shows "int (card ((B - A) \<inter> M)) = int (card (B \<inter> M)) - int (card (A \<inter> M))"
proof -
  have e: "(B - A) \<inter> M = (B \<inter> M) - (A \<inter> M)" by auto
  have f: "finite (A \<inter> M)" using assms finite_subset [of A B] by simp
  have s: "A \<inter> M \<subseteq> B \<inter> M" using assms by auto
  have "card ((B \<inter> M) - (A \<inter> M)) = card (B \<inter> M) - card (A \<inter> M)"
    using card_Diff_subset [OF f s] .
  moreover have "card (A \<inter> M) \<le> card (B \<inter> M)"
    using card_mono [of "B \<inter> M" "A \<inter> M"] assms s by simp
  ultimately show ?thesis using e by simp
qed

lemma consistent_iff:
  "consistent M a \<longleftrightarrow> mines a \<subseteq> M \<and> safes a \<inter> M = {}
     \<and> (\<forall>s\<in>set (knowledge a). finite (cells s) \<and> count s = int (card (cells s \<inter> M)))"
  by (simp add: consistent_def list_all_iff)

lemma agrees_Sentence_mark_mine:
  assumes "finite (cells s)" and "count s = int (card (cells s \<inter> M))" and "c \<in> M"
  shows "finite (cells (Sentence_mark_mine c s))
       \<and> count (Sentence_mark_mine c s) = int (card (cells (Sentence_mark_mine c s) \<inter> M))"
proof (cases "c \<in> cells s")
  case True
  then show ?thesis
    using assms card_Int_remove_in [of "cells s" c M] by (simp add: Sentence_mark_mine_def)
next
  case False
  then show ?thesis using assms by (simp add: Sentence_mark_mine_def)
qed

lemma agrees_Sentence_mark_safe:
  assumes "finite (cells s)" and "count s = int (card (cells s \<inter> M))" and "c \<notin> M"
  shows "finite (cells (Sentence_mark_safe c s))
       \<and> count (Sentence_mark_safe c s) = int (card (cells (Sentence_mark_safe c s) \<inter> M))"
  using assms card_Int_remove_out [of c M "cells s"] by (simp add: Sentence_mark_safe_def)

lemma consistent_mark_mine:
  assumes "consistent M a" and "c \<in> M"
  shows "consistent M (mark_mine c a)"
  using assms agrees_Sentence_mark_mine [of _ M c]
  by (simp add: consistent_iff mark_mine_def)

lemma consistent_mark_safe:
  assumes "consistent M a" and "c \<notin> M"
  shows "consistent M (mark_safe c a)"
  using assms agrees_Sentence_mark_safe [of _ M c]
  by (simp add: consistent_iff mark_safe_def)

lemma consistent_fold_mark_mine:
  assumes "consistent M a" and "set xs \<subseteq> M"
  shows "consistent M (fold mark_mine xs a)"
  using assms by (induction xs arbitrary: a) (simp_all add: consistent_mark_mine)

lemma consistent_fold_mark_safe:
  assumes "consistent M a" and "set xs \<inter> M = {}"
  shows "consistent M (fold mark_safe xs a)"
  using assms by (induction xs arbitrary: a) (simp_all add: consistent_mark_safe)

lemma length_fold_mark_mine: "length (knowledge (fold mark_mine xs a)) = length (knowledge a)"
  by (simp add: fold_mark_mine)

lemma length_fold_mark_safe: "length (knowledge (fold mark_safe xs a)) = length (knowledge a)"
  by (simp add: fold_mark_safe)

lemma consistent_nth:
  assumes "consistent M a" and "i < length (knowledge a)"
  shows "finite (cells (knowledge a ! i))
       \<and> count (knowledge a ! i) = int (card (cells (knowledge a ! i) \<inter> M))"
  using assms by (simp add: consistent_iff)

lemma consistent_sweep_step:
  assumes c: "consistent M a" and i: "i < length (knowledge a)"
  shows "consistent M (fst (sweep_step i (a, r)))"
proof -
  let ?s = "knowledge a ! i"
  let ?a1 = "if int (card (cells ?s)) = count ?s \<and> count ?s \<noteq> 0
             then fold mark_mine (set_items (cells ?s)) a else a"
  let ?s1 = "knowledge ?a1 ! i"
  have s: "finite (cells ?s)" "count ?s = int (card (cells ?s \<inter> M))"
    using consistent_nth [OF c i] by simp_all
  have a1: "consistent M ?a1"
  proof (cases "int (card (cells ?s)) = count ?s \<and> count ?s \<noteq> 0")
    case True
    then have "cells ?s \<subseteq> M" using card_Int_full [of "cells ?s" M] s by simp
    then have "set (set_items (cells ?s)) \<subseteq> M" using set_items_subset [of "cells ?s"] by blast
    then have "consistent M (fold mark_mine (set_items (cells ?s)) a)"
      by (rule consistent_fold_mark_mine [OF c])
    then show ?thesis unfolding if_P [OF True] .
  next
    case False
    show ?thesis unfolding if_not_P [OF False] by (rule c)
  qed
  have i1: "i < length (knowledge ?a1)" using i by (simp add: length_fold_mark_mine)
  have s1: "finite (cells ?s1)" "count ?s1 = int (card (cells ?s1 \<inter> M))"
    using consistent_nth [OF a1 i1] by simp_all
  have a2: "consistent M (fold mark_safe (set_items (cells ?s1)) ?a1)" if "count ?s1 = 0"
  proof -
    have "cells ?s1 \<inter> M = {}" using card_Int_none [of "cells ?s1" M] s1 that by simp
    then have "set (set_items (cells ?s1)) \<inter> M = {}"
      using set_items_subset [of "cells ?s1"] by blast
    then show ?thesis by (rule consistent_fold_mark_safe [OF a1])
  qed
  have "fst (sweep_step i (a, r)) =
      (if card (cells ?s) = 0 then a
       else if count ?s1 = 0 then fold mark_safe (set_items (cells ?s1)) ?a1 else ?a1)"
    unfolding sweep_step_def Let_def by (simp split: prod.splits)
  then show ?thesis using c a1 a2 by simp
qed

lemma length_sweep_step: "length (knowledge (fst (sweep_step i (a, r)))) = length (knowledge a)"
  by (rule sweep_step_keeps [of "\<lambda>b. length (knowledge b) = length (knowledge a)"])
     (simp_all add: mark_mine_def mark_safe_def)

lemma consistent_fold_sweep_step:
  assumes "consistent M a" and "\<forall>i\<in>set is. i < length (knowledge a)"
  shows "consistent M (fst (fold sweep_step is (a, r)))"
  using assms
proof (induction "is" arbitrary: a r)
  case Nil
  then show ?case by simp
next
  case (Cons i "is")
  obtain b r' where st: "sweep_step i (a, r) = (b, r')" by (cases "sweep_step i (a, r)")
  have "consistent M b" using consistent_sweep_step [of M a i r] Cons.prems st by simp
  moreover have "length (knowledge b) = length (knowledge a)"
    using length_sweep_step [of i a r] st by simp
  ultimately show ?case using Cons.IH [of b r'] Cons.prems(2) st by simp
qed

lemma consistent_before_purge:
  assumes "consistent M a"
  shows "consistent M (before_purge a)"
proof -
  have "consistent M (fst (sweep a))"
    unfolding sweep_def using consistent_fold_sweep_step [OF assms] by simp
  then show ?thesis
    using before_purge_knowledge [of a] before_purge_facts [of a]
    by (auto simp: consistent_iff)
qed

lemma consistent_resolve:
  assumes "consistent M a"
  shows "consistent M (resolve ns a)"
proof -
  have "finite (cells d) \<and> count d = int (card (cells d \<inter> M))"
    if d: "d \<in> set (resolution (knowledge a))" for d
  proof -
    from d obtain s t where st: "s \<in> set (knowledge a)" "t \<in> set (knowledge a)"
        "d \<in> set (resolve_pair s t)"
      by (auto simp: resolution_def)
    have fs: "finite (cells s)" "count s = int (card (cells s \<inter> M))"
      and ft: "finite (cells t)" "count t = int (card (cells t \<inter> M))"
      using assms st by (simp_all add: consistent_iff)
    from st(3) consider "cells s \<subseteq> cells t" "d = Sentence (cells t - cells s) (count t - count s)"
      | "cells t \<subseteq> cells s" "d = Sentence (cells s - cells t) (count s - count t)"
      by (auto simp: resolve_pair_def split: if_splits)
    then show ?thesis
    proof cases
      case 1
      then show ?thesis
        using card_Int_diff [of "cells t" "cells s" M] fs ft by (simp add: Sentence_def)
    next
      case 2
      then show ?thesis
        using card_Int_diff [of "cells s" "cells t" M] fs ft by (simp add: Sentence_def)
    qed
  qed
  then show ?thesis using assms resolve_facts [of ns a] by (auto simp: consistent_iff)
qed

lemma upto_three: "[x - 1..x + 1] = [x - 1, x, x + 1]" for x :: int
proof -
  have "[x - 1..x + 1] = (x - 1) # [x..x + 1]"
    using upto_rec1 [of "x - 1" "x + 1"] by simp
  also have "[x..x + 1] = x # [x + 1..x + 1]"
    using upto_rec1 [of x "x + 1"] by simp
  finally show ?thesis by simp
qed

lemma neighbours_nine:
  "neighbours (i, j) =
     [(i - 1, j - 1), (i - 1, j), (i - 1, j + 1),
      (i, j - 1), (i, j), (i, j + 1),
      (i + 1, j - 1), (i + 1, j), (i + 1, j + 1)]"
  by (simp add: neighbours_def upto_three)

lemma distinct_neighbours: "distinct (neighbours c)"
  by (cases c) (simp add: neighbours_nine)

text \<open>The loop of \<open>add_knowledge\<close> over the neighbours and the loop of \<open>nearby_mines\<close>,
  run side by side: the count that is left, plus the mines the board has counted so
  far, minus the mined cells collected so far, never changes.\<close>

lemma neighbour_loops:
  assumes "distinct ps" and "finite nc" and "nc \<inter> set ps = {}"
    and "mines a \<subseteq> M" and "safes a \<inter> M = {}"
    and "\<forall>p\<in>M. in_bounds h w p" and "height a = h" and "width a = w"
  shows "finite (fst (fold (neighbour_step a c) ps (nc, n)))
       \<and> snd (fold (neighbour_step a c) ps (nc, n))
           + fold (\<lambda>p k. if p = c then k
                          else if in_bounds h w p
                               then (if p \<in> M then k + 1 else k)
                               else k) ps m
           - int (card (fst (fold (neighbour_step a c) ps (nc, n)) \<inter> M))
         = n + m - int (card (nc \<inter> M))"
  using assms(1,2,3)
proof (induction ps arbitrary: nc n m)
  case Nil
  then show ?case by simp
next
  case (Cons p ps)
  let ?g = "\<lambda>p k. if p = c then k
                   else if in_bounds h w p
                        then (if p \<in> M then k + 1 else k)
                        else k"
  obtain nc1 n1 where st: "neighbour_step a c p (nc, n) = (nc1, n1)"
    by (cases "neighbour_step a c p (nc, n)")
  have p: "p \<notin> nc" "p \<notin> set ps" "distinct ps" "nc \<inter> set ps = {}"
    using Cons.prems by auto
  have sub: "nc1 \<subseteq> insert p nc" using st by (auto simp: neighbour_step_def split: if_splits)
  have fin: "finite nc1" using sub Cons.prems(2) finite_subset [of nc1 "insert p nc"] by simp
  have dis: "nc1 \<inter> set ps = {}" using sub p by auto
  have step: "n1 + ?g p m - int (card (nc1 \<inter> M)) = n + m - int (card (nc \<inter> M))"
  proof -
    consider (skip) "p = c \<or> p \<in> safes a"
      | (mine) "p \<noteq> c" "p \<notin> safes a" "p \<in> mines a"
      | (new) "p \<noteq> c" "p \<notin> safes a" "p \<notin> mines a" "in_bounds h w p"
      | (out) "p \<noteq> c" "p \<notin> safes a" "p \<notin> mines a" "\<not> in_bounds h w p"
      by blast
    then show ?thesis
    proof cases
      case skip
      then have "nc1 = nc" "n1 = n" using st by (auto simp: neighbour_step_def assms(7,8))
      moreover have "?g p m = m" using skip assms(5) by auto
      ultimately show ?thesis by simp
    next
      case mine
      then have "nc1 = nc" "n1 = n - 1" using st by (auto simp: neighbour_step_def assms(7,8))
      moreover have "?g p m = m + 1" using mine assms(4,6) by auto
      ultimately show ?thesis by simp
    next
      case new
      then have e: "nc1 = insert p nc" "n1 = n" using st by (auto simp: neighbour_step_def assms(7,8))
      show ?thesis
      proof (cases "p \<in> M")
        case True
        have "insert p nc \<inter> M = insert p (nc \<inter> M)" using True by auto
        moreover have "p \<notin> nc \<inter> M" using p by simp
        moreover have "finite (nc \<inter> M)" using Cons.prems(2) by simp
        ultimately have "int (card (nc1 \<inter> M)) = int (card (nc \<inter> M)) + 1" using e by simp
        moreover have "?g p m = m + 1" using new True by simp
        ultimately show ?thesis using e by simp
      next
        case False
        then have "insert p nc \<inter> M = nc \<inter> M" by auto
        moreover have "?g p m = m" using new False by simp
        ultimately show ?thesis using e by simp
      qed
    next
      case out
      then have "nc1 = nc" "n1 = n" using st by (auto simp: neighbour_step_def assms(7,8))
      moreover have "?g p m = m" using out assms(6) by auto
      ultimately show ?thesis by simp
    qed
  qed
  from Cons.IH [OF p(3) fin dis, of n1 "?g p m"] step st
  show ?case by simp
qed

lemma cells_fold_drop_lower:
  "cells t - {c} \<subseteq>
     cells (fold (\<lambda>c' s'. if c = c' then s'\<lparr>cells := cells s' - {c'}\<rparr> else s') xs t)"
proof (induction xs arbitrary: t)
  case Nil
  show ?case by auto
next
  case (Cons x xs)
  show ?case
  proof (cases "c = x")
    case True
    then show ?thesis using Cons.IH [of "t\<lparr>cells := cells t - {x}\<rparr>"] by auto
  next
    case False
    then show ?thesis using Cons.IH [of t] by simp
  qed
qed

lemma agrees_drop_cell:
  assumes "finite (cells s)" and "count s = int (card (cells s \<inter> M))" and "c \<notin> M"
  shows "finite (cells (drop_cell c s))
       \<and> count (drop_cell c s) = int (card (cells (drop_cell c s) \<inter> M))"
proof -
  have u: "cells (drop_cell c s) \<subseteq> cells s" by (rule cells_drop_cell)
  have l: "cells s - {c} \<subseteq> cells (drop_cell c s)"
    unfolding drop_cell_def by (rule cells_fold_drop_lower)
  have "cells (drop_cell c s) \<inter> M = cells s \<inter> M" using u l assms(3) by auto
  then show ?thesis
    using assms u finite_subset [of "cells (drop_cell c s)" "cells s"]
    by (simp add: count_drop_cell)
qed

lemma agrees_observe_new:
  assumes c: "consistent M a" and b: "\<forall>p\<in>M. in_bounds (height a) (width a) p"
    and n: "c \<notin> M"
  shows "finite (cells (fst (observe c (nearby_mines (height a) (width a) M c) a)))
       \<and> count (fst (observe c (nearby_mines (height a) (width a) M c) a))
         = int (card (cells (fst (observe c (nearby_mines (height a) (width a) M c) a)) \<inter> M))"
proof -
  let ?n = "nearby_mines (height a) (width a) M c"
  let ?a1 = "mark_safe c (a\<lparr>moves_made := insert c (moves_made a)\<rparr>)"
  obtain nc n' where f: "fold (neighbour_step ?a1 c) (neighbours c) ({}, ?n) = (nc, n')"
    by (cases "fold (neighbour_step ?a1 c) (neighbours c) ({}, ?n)")
  have hw: "height ?a1 = height a" "width ?a1 = width a" by (simp_all add: mark_safe_def)
  have m: "mines ?a1 \<subseteq> M" using c by (simp add: consistent_iff mark_safe_def)
  have s: "safes ?a1 \<inter> M = {}" using c n by (simp add: consistent_iff mark_safe_def)
  have "finite nc \<and> n' + ?n - int (card (nc \<inter> M)) = ?n + 0 - int (card ({} \<inter> M))"
    using neighbour_loops [where ps = "neighbours c" and nc = "{}" and a = ?a1 and M = M
        and c = c and n = ?n and m = 0, OF distinct_neighbours _ _ m s b hw] f
    by (simp add: nearby_mines_def)
  then have "finite nc \<and> n' = int (card (nc \<inter> M))" by simp
  moreover have "fst (observe c ?n a) = Sentence nc n'"
    using f by (simp add: observe_def Let_def)
  ultimately show ?thesis by (simp add: Sentence_def)
qed

lemma consistent_observe:
  assumes c: "consistent M a" and b: "\<forall>p\<in>M. in_bounds (height a) (width a) p"
    and n: "c \<notin> M"
  shows "consistent M (snd (observe c (nearby_mines (height a) (width a) M c) a))"
proof -
  let ?n = "nearby_mines (height a) (width a) M c"
  have "finite (cells k) \<and> count k = int (card (cells k \<inter> M))"
    if k: "k \<in> set (knowledge (snd (observe c ?n a)))" for k
  proof -
    from observe_knowledge [OF k] obtain s where s: "k = drop_cell c s"
      "s = fst (observe c ?n a) \<or> s \<in> Sentence_mark_safe c ` set (knowledge a)" by blast
    have "finite (cells s) \<and> count s = int (card (cells s \<inter> M))"
      using s(2)
    proof
      assume "s = fst (observe c ?n a)"
      then show ?thesis using agrees_observe_new [OF c b n] by simp
    next
      assume "s \<in> Sentence_mark_safe c ` set (knowledge a)"
      then obtain s0 where s0: "s0 \<in> set (knowledge a)" "s = Sentence_mark_safe c s0" by blast
      then show ?thesis
        using agrees_Sentence_mark_safe [of s0 M c] c n by (simp add: consistent_iff)
    qed
    then show ?thesis using agrees_drop_cell [of s M c] n s(1) by simp
  qed
  then show ?thesis using observe_facts [of c ?n a] c n by (simp add: consistent_iff)
qed

lemma sweep_size: "height (fst (sweep a)) = height a \<and> width (fst (sweep a)) = width a"
  by (rule sweep_keeps [of "\<lambda>b. height b = height a \<and> width b = width a"])
     (simp_all add: mark_mine_def mark_safe_def)

lemma add_knowledge_size:
  assumes "add_knowledge c n a = Inr a'"
  shows "height a' = height a \<and> width a' = width a"
  using add_knowledge_Inr [OF assms] before_purge_facts sweep_size resolve_facts observe_facts
  by simp

lemma truthful_consistent:
  assumes "truthful h w M a" and "\<forall>p\<in>M. in_bounds h w p"
  shows "consistent M a \<and> height a = h \<and> width a = w"
  using assms
proof (induction rule: truthful.induct)
  case (truthful_init h w M)
  show ?case by (simp add: consistent_def MinesweeperAI_def)
next
  case (truthful_add h w M a c a')
  then have ih: "consistent M a" "height a = h" "width a = w" by simp_all
  let ?n = "nearby_mines h w M c"
  have 1: "consistent M (snd (observe c ?n a))"
    using consistent_observe [OF ih(1) _ truthful_add.hyps(2)] truthful_add.prems ih by simp
  have "consistent M (before_purge (resolve (fst (observe c ?n a))
                                             (before_purge (snd (observe c ?n a)))))"
    by (rule consistent_before_purge [OF consistent_resolve [OF consistent_before_purge [OF 1]]])
  then show ?case
    using add_knowledge_Inr [OF truthful_add.hyps(3)]
      add_knowledge_size [OF truthful_add.hyps(3)] ih by simp
next
  case (truthful_mine h w M a c)
  then show ?case by (simp add: consistent_mark_mine) (simp add: mark_mine_def)
next
  case (truthful_safe h w M a c)
  then show ?case by (simp add: consistent_mark_safe) (simp add: mark_safe_def)
qed

section \<open>Soundness and the sentence invariant\<close>

text \<open>
  Claim C4 fails for arbitrary calls: nothing keeps a caller from marking a cell safe and
  then a mine, and \<open>add_knowledge\<close> itself does so when the counts are wrong. On a 2 by 2
  board, \<open>add_knowledge((0,0), 3)\<close> makes the three other cells mines, and
  \<open>add_knowledge((0,1), 0)\<close> then marks the mine \<open>(0,1)\<close> safe.
\<close>

theorem safes_mines_overlap:
  "safes (mark_mine (0, 0) (mark_safe (0, 0) (MinesweeperAI 1 1)))
     \<inter> mines (mark_mine (0, 0) (mark_safe (0, 0) (MinesweeperAI 1 1))) = {(0, 0)}
   \<and> map_sum id (\<lambda>a. safes a \<inter> mines a)
        (play [((0, 0), 3), ((0, 1), 0)] (MinesweeperAI 2 2)) = Inr {(0, 1)}"
  by code_simp

text \<open>
  Claim C4, as the code has it: fix a board of height \<open>h\<close> and width \<open>w\<close> whose mined
  cells \<open>M\<close> are cells of the board. In every state reached from the initial one by calls
  that tell the truth about this board (\<open>add_knowledge\<close> on a cell without a mine with
  the board's \<open>nearby_mines\<close> count, \<open>mark_mine\<close> on mined cells, \<open>mark_safe\<close> on cells
  without a mine), no cell is both in \<open>safes\<close> and in \<open>mines\<close>.
\<close>

theorem truthful_safes_mines_disjoint:
  assumes "truthful h w M a" and "\<forall>p\<in>M. in_bounds h w p"
  shows "safes a \<inter> mines a = {}"
proof -
  have "consistent M a" using truthful_consistent [OF assms] by simp
  then show ?thesis by (auto simp: consistent_iff)
qed

theorem truthful_safes_mines_disjoint_witness:
  "safes \<lparr>height = 2, width = 2, moves_made = {(1, 1)}, mines = {(0, 0), (0, 1), (1, 0)},
          safes = {(1, 1)}, knowledge = []\<rparr>
   \<inter> mines \<lparr>height = 2, width = 2, moves_made = {(1, 1)}, mines = {(0, 0), (0, 1), (1, 0)},
            safes = {(1, 1)}, knowledge = []\<rparr> = {}"
proof -
  let ?M = "{(0, 0), (0, 1), (1, 0)} :: cell set"
  let ?A = "\<lparr>height = 2, width = 2, moves_made = {(1, 1)}, mines = {(0, 0), (0, 1), (1, 0)},
          safes = {(1, 1)}, knowledge = []\<rparr>"
  have n: "(1, 1) \<notin> ?M" by simp
  have e: "add_knowledge (1, 1) (nearby_mines 2 2 ?M (1, 1)) (MinesweeperAI 2 2) = Inr ?A"
    by code_simp
  have t: "truthful 2 2 ?M ?A" by (rule truthful_add [OF truthful_init n e])
  have b: "\<forall>p\<in>?M. in_bounds 2 2 p" by (simp add: in_bounds_def)
  show ?thesis by (rule truthful_safes_mines_disjoint [OF t b])
qed

text \<open>
  Claim C5 fails for arbitrary calls: \<open>add_knowledge\<close> takes the count as it comes. On a
  fresh 3 by 3 board \<open>add_knowledge((0,0), 5)\<close> leaves a sentence of 3 cells with count 5,
  and \<open>add_knowledge((0,0), -1)\<close> one with count -1.
\<close>

theorem count_out_of_range:
  "map_sum id (\<lambda>a. map (\<lambda>s. (count s, card (cells s))) (knowledge a))
      (add_knowledge (0, 0) 5 (MinesweeperAI 3 3)) = Inr [(5, 3)]
   \<and> map_sum id (\<lambda>a. map (\<lambda>s. (count s, card (cells s))) (knowledge a))
      (add_knowledge (0, 0) (- 1) (MinesweeperAI 3 3)) = Inr [(- 1, 3)]"
  by code_simp

text \<open>
  Claim C5, as the code has it: in every state reached by calls that tell the truth
  about a board whose mined cells are cells of the board, every sentence has a count
  between 0 and the number of its cells (the count is the number of mined cells among
  them).
\<close>

theorem truthful_count_in_range:
  assumes "truthful h w M a" and "\<forall>p\<in>M. in_bounds h w p"
  shows "\<forall>s\<in>set (knowledge a). 0 \<le> count s \<and> count s \<le> int (card (cells s))
           \<and> count s = int (card (cells s \<inter> M))"
proof
  fix s
  assume s: "s \<in> set (knowledge a)"
  have "consistent M a" using truthful_consistent [OF assms] by simp
  then have f: "finite (cells s)" and c: "count s = int (card (cells s \<inter> M))"
    using s by (simp_all add: consistent_iff)
  have "card (cells s \<inter> M) \<le> card (cells s)"
    using card_mono [of "cells s" "cells s \<inter> M"] f by simp
  then show "0 \<le> count s \<and> count s \<le> int (card (cells s))
           \<and> count s = int (card (cells s \<inter> M))"
    using c by simp
qed

theorem truthful_count_in_range_witness:
  "list_all (\<lambda>s. 0 \<le> count s \<and> count s \<le> int (card (cells s)))
     [Sentence {(0, 0), (0, 1), (1, 1)} 1, Sentence {(0, 1), (0, 2), (1, 1)} 1]"
proof -
  let ?M = "{(0, 0), (0, 2)} :: cell set"
  let ?A1 = "\<lparr>height = 2, width = 3, moves_made = {(1, 0)}, mines = {}, safes = {(1, 0)},
      knowledge = [Sentence {(0, 0), (0, 1), (1, 1)} 1]\<rparr>"
  let ?A2 = "\<lparr>height = 2, width = 3, moves_made = {(1, 0), (1, 2)}, mines = {},
      safes = {(1, 0), (1, 2)},
      knowledge = [Sentence {(0, 0), (0, 1), (1, 1)} 1, Sentence {(0, 1), (0, 2), (1, 1)} 1]\<rparr>"
  have n1: "(1, 0) \<notin> ?M" and n2: "(1, 2) \<notin> ?M" by simp_all
  have e1: "add_knowledge (1, 0) (nearby_mines 2 3 ?M (1, 0)) (MinesweeperAI 2 3) = Inr ?A1"
    by code_simp
  have e2: "add_knowledge (1, 2) (nearby_mines 2 3 ?M (1, 2)) ?A1 = Inr ?A2"
    by code_simp
  have t: "truthful 2 3 ?M ?A2"
    by (rule truthful_add [OF truthful_add [OF truthful_init n1 e1] n2 e2])
  have b: "\<forall>p\<in>?M. in_bounds 2 3 p" by (simp add: in_bounds_def)
  show ?thesis using truthful_count_in_range [OF t b] by (simp add: list_all_iff)
qed

section \<open>The order in which a set is enumerated does not matter\<close>

text \<open>The loops that mark every cell of a set give the same state for every
  enumeration of the set, so that the choice made in \<open>set_items\<close> is immaterial.\<close>

lemma known_safe_set_fold_mine:
  "known_safe_set (fold Sentence_mark_mine xs s) = known_safe_set s"
  by (induction xs arbitrary: s) (simp_all add: Sentence_mark_mine_def)

lemma known_mine_set_fold_safe:
  "known_mine_set (fold Sentence_mark_safe xs s) = known_mine_set s"
  by (induction xs arbitrary: s) (simp_all add: Sentence_mark_safe_def)

lemma fold_Sentence_mark_mine_order:
  assumes "set xs = set ys"
  shows "fold Sentence_mark_mine xs s = fold Sentence_mark_mine ys s"
  using assms
  by (intro sentence.equality)
     (simp_all add: cells_fold_Sentence_mark_mine count_fold_Sentence_mark_mine
        known_mine_set_fold known_safe_set_fold_mine)

lemma fold_Sentence_mark_safe_order:
  assumes "set xs = set ys"
  shows "fold Sentence_mark_safe xs s = fold Sentence_mark_safe ys s"
  using assms
  by (intro sentence.equality)
     (simp_all add: cells_fold_Sentence_mark_safe count_fold_Sentence_mark_safe
        known_safe_set_fold known_mine_set_fold_safe)

lemma fold_mark_mine_order:
  assumes "set xs = set ys"
  shows "fold mark_mine xs a = fold mark_mine ys a"
proof -
  have "fold Sentence_mark_mine xs = fold Sentence_mark_mine ys"
    using fold_Sentence_mark_mine_order [OF assms] by blast
  then show ?thesis using assms by (simp add: fold_mark_mine)
qed

lemma fold_mark_safe_order:
  assumes "set xs = set ys"
  shows "fold mark_safe xs a = fold mark_safe ys a"
proof -
  have "fold Sentence_mark_safe xs = fold Sentence_mark_safe ys"
    using fold_Sentence_mark_safe_order [OF assms] by blast
  then show ?thesis using assms by (simp add: fold_mark_safe)
qed

section \<open>The sentences that resolution derives\<close>

text \<open>Every sentence derived by the resolution step comes from two sentences of the
  knowledge base, one with fewer cells that are all cells of the other, and holds the
  difference of the cells and the difference of the counts; and every such pair of
  sentences with finitely many cells gives its derived sentence.\<close>

lemma resolution_derived:
  assumes "d \<in> set (resolution ks)"
  shows "\<exists>s\<in>set ks. \<exists>t\<in>set ks. cells s \<subseteq> cells t \<and> card (cells s) \<noteq> card (cells t)
           \<and> d = Sentence (cells t - cells s) (count t - count s)"
proof -
  from assms obtain s t where st: "s \<in> set ks" "t \<in> set ks" "d \<in> set (resolve_pair s t)"
    by (auto simp: resolution_def)
  from st(3) consider
      "cells s \<subseteq> cells t" "card (cells s) \<noteq> card (cells t)"
      "d = Sentence (cells t - cells s) (count t - count s)"
    | "cells t \<subseteq> cells s" "card (cells t) \<noteq> card (cells s)"
      "d = Sentence (cells s - cells t) (count s - count t)"
    by (auto simp: resolve_pair_def split: if_splits)
  then show ?thesis using st(1,2) by cases blast+
qed

lemma resolution_derives:
  assumes "s \<in> set ks" and "t \<in> set ks" and "cells s \<subset> cells t" and "finite (cells t)"
  shows "Sentence (cells t - cells s) (count t - count s) \<in> set (resolution ks)"
proof -
  have "card (cells s) < card (cells t)" using assms(3,4) by (rule psubset_card_mono [rotated])
  moreover have "\<not> sentence_eq s t" using assms(3) by (auto simp: sentence_eq_def)
  ultimately have "resolve_pair s t = [Sentence (cells t - cells s) (count t - count s)]"
    using assms(3) by (auto simp: resolve_pair_def)
  then show ?thesis using assms(1,2) by (force simp: resolution_def)
qed

end
